theory Spec2Isabelle
  imports Main
begin

section \<open>Data model (app/models.py)\<close>

datatype FieldType = TECHNOLOGY | JOB_FUNCTION | ORGANIZATION

datatype LogicalOperator = AND | OR | NOT

text \<open>The class \<open>Condition\<close>: a field and a free-text value (\<open>val\<close> is the source's
  attribute \<open>value\<close>).\<close>

record Condition =
  field :: FieldType
  val :: string

text \<open>The class \<open>QueryNode\<close>. It is recursive, so it is a datatype with one constructor whose
  selectors are the attributes; the three optional attributes are options (\<open>None\<close> is Python's
  \<open>None\<close>). The tag \<open>type\<close> is kept as a string, since the compiler compares it with string
  literals and has a branch for any other tag.\<close>

datatype QueryNode =
  QueryNode (type: string) (operator: "LogicalOperator option")
    (condition: "Condition option") (children: "QueryNode list option")

text \<open>The exceptions the compiler and the endpoint can meet. \<open>ValueError\<close> carries its message;
  \<open>ExecutionError\<close> stands for whatever else the executor raises.\<close>

datatype error =
  ValueError string | AttributeError | TypeError | IndexError | KeyError
  | ExecutionError string

section \<open>String helpers of the host language\<close>

text \<open>Python's \<open>sep.join(parts)\<close>.\<close>

fun join_str :: "string \<Rightarrow> string list \<Rightarrow> string" where
  "join_str sep [] = []"
| "join_str sep [x] = x"
| "join_str sep (x # y # ys) = x @ sep @ join_str sep (y # ys)"

text \<open>Python's \<open>str\<close> of an unbounded integer, as an f-string interpolates it: decimal digits,
  most significant first, with a leading minus sign for a negative number.\<close>

definition digit_char :: "nat \<Rightarrow> char" where
  "digit_char d = ''0123456789'' ! d"

fun str_nat :: "nat \<Rightarrow> string" where
  "str_nat n = (if n < 10 then [digit_char n] else str_nat (n div 10) @ [digit_char (n mod 10)])"

declare str_nat.simps [simp del]

definition str_int :: "int \<Rightarrow> string" where
  "str_int i = (if i < 0 then CHR ''-'' # str_nat (nat (- i)) else str_nat (nat i))"

section \<open>The query compiler (app/query\_builder.py)\<close>

subsection \<open>Join-set collector\<close>

text \<open>\<open>_collect_required_fields\<close>. The \<open>for\<close> loop over the children is \<open>collect_loop\<close>, which
  carries the set \<open>fields\<close> being updated (as \<open>fields_acc\<close>). Reading
  \<open>node.condition.field\<close> when the condition is \<open>None\<close> raises \<open>AttributeError\<close>. An
  operator node whose children are \<open>None\<close> or the empty list is falsy in the test
  \<open>node.children\<close> and contributes nothing.\<close>

fun collect_required_fields :: "QueryNode \<Rightarrow> error + FieldType set"
  and collect_loop :: "QueryNode list \<Rightarrow> FieldType set \<Rightarrow> error + FieldType set" where
  "collect_required_fields (QueryNode ty op cond ch) =
     (if ty = ''condition'' then
        (case cond of
           None \<Rightarrow> Inl AttributeError
         | Some c \<Rightarrow> Inr (insert (field c) {}))
      else if ty = ''operator'' \<and> ch \<noteq> None \<and> ch \<noteq> Some [] then
        (case ch of
           None \<Rightarrow> Inr {}
         | Some cs \<Rightarrow> collect_loop cs {})
      else Inr {})"
| "collect_loop [] fields_acc = Inr fields_acc"
| "collect_loop (child # rest) fields_acc =
     (case collect_required_fields child of
        Inl e \<Rightarrow> Inl e
      | Inr fs \<Rightarrow> collect_loop rest (fields_acc \<union> fs))"

subsection \<open>Base-statement assembler\<close>

text \<open>\<open>_build_base_query\<close>: the list \<open>query_parts\<close> grows by the three guarded appends and is
  joined with single spaces.\<close>

definition build_base_query :: "FieldType set \<Rightarrow> string" where
  "build_base_query required_fields =
     (let query_parts = [''SELECT DISTINCT jp.id, jp.datetime_pulled'', ''FROM job_posts jp''];
          query_parts =
            (if ORGANIZATION \<in> required_fields
             then query_parts @ [''INNER JOIN organizations o ON jp.organization_id = o.id'']
             else query_parts);
          query_parts =
            (if TECHNOLOGY \<in> required_fields
             then query_parts @ [''INNER JOIN job_posts_tech jpt ON jp.id = jpt.job_post_id'',
                                 ''INNER JOIN tech t ON jpt.tech_id = t.id'']
             else query_parts);
          query_parts =
            (if JOB_FUNCTION \<in> required_fields
             then query_parts @
                    [''INNER JOIN job_posts_job_functions jpjf ON jp.id = jpjf.job_post_id'',
                     ''INNER JOIN job_functions jf ON jpjf.job_function_id = jf.id'']
             else query_parts)
      in join_str '' '' query_parts)"

subsection \<open>Predicate compiler\<close>

text \<open>The dictionary \<open>field_mapping\<close> of \<open>_build_condition\<close>.\<close>

definition field_mapping :: "FieldType \<rightharpoonup> string" where
  "field_mapping = [TECHNOLOGY \<mapsto> ''t.name'', JOB_FUNCTION \<mapsto> ''jf.name'',
                    ORGANIZATION \<mapsto> ''o.name'']"

text \<open>\<open>_build_condition\<close> receives \<open>node.condition\<close>, which may be \<open>None\<close>; reading its field
  then raises \<open>AttributeError\<close>. A key missing from the dictionary would raise \<open>KeyError\<close>.\<close>

definition build_condition ::
  "Condition option \<Rightarrow> int \<Rightarrow> error + (string \<times> string list \<times> int)" where
  "build_condition cond param_offset =
     (case cond of
        None \<Rightarrow> Inl AttributeError
      | Some c \<Rightarrow>
          (case field_mapping (field c) of
             None \<Rightarrow> Inl KeyError
           | Some column \<Rightarrow>
               Inr (column @ '' ILIKE $'' @ str_int (param_offset + 1),
                    [''%'' @ val c @ ''%''],
                    param_offset + 1)))"

text \<open>\<open>_build_where_clause\<close> and \<open>_build_operator\<close> call each other; the \<open>for\<close> loop of the
  AND/OR branch is \<open>operator_loop\<close>, carrying \<open>clauses\<close>, \<open>all_params\<close> and \<open>current_offset\<close>.
  In the NOT branch \<open>node.children[0]\<close> raises \<open>TypeError\<close> on \<open>None\<close> and \<open>IndexError\<close> on the
  empty list; iterating over \<open>None\<close> raises \<open>TypeError\<close>. Any operator other than \<open>AND\<close>
  (also \<open>None\<close>) joins with \<open>OR\<close>.\<close>

fun build_where_clause :: "QueryNode \<Rightarrow> int \<Rightarrow> error + (string \<times> string list \<times> int)"
  and build_operator :: "QueryNode \<Rightarrow> int \<Rightarrow> error + (string \<times> string list \<times> int)"
  and operator_loop ::
    "QueryNode list \<Rightarrow> string list \<Rightarrow> string list \<Rightarrow> int
       \<Rightarrow> error + (string list \<times> string list \<times> int)" where
  "build_where_clause (QueryNode ty op cond ch) param_offset =
     (if ty = ''condition'' then build_condition cond param_offset
      else if ty = ''operator'' then build_operator (QueryNode ty op cond ch) param_offset
      else Inl (ValueError (''Unknown node type: '' @ ty)))"
| "build_operator (QueryNode ty op cond ch) param_offset =
     (if op = Some NOT then
        (case ch of
           None \<Rightarrow> Inl TypeError
         | Some [] \<Rightarrow> Inl IndexError
         | Some (child # rest) \<Rightarrow>
             (case build_where_clause child param_offset of
                Inl e \<Rightarrow> Inl e
              | Inr (sub_clause, params, next_offset) \<Rightarrow>
                  Inr (''NOT ('' @ sub_clause @ '')'', params, next_offset)))
      else
        (case ch of
           None \<Rightarrow> Inl TypeError
         | Some cs \<Rightarrow>
             (case operator_loop cs [] [] param_offset of
                Inl e \<Rightarrow> Inl e
              | Inr (clauses, all_params, current_offset) \<Rightarrow>
                  Inr (join_str (if op = Some AND then '' AND '' else '' OR '') clauses,
                       all_params, current_offset))))"
| "operator_loop [] clauses all_params current_offset =
     Inr (clauses, all_params, current_offset)"
| "operator_loop (child # rest) clauses all_params current_offset =
     (case build_where_clause child current_offset of
        Inl e \<Rightarrow> Inl e
      | Inr (sub_clause, params, next_offset) \<Rightarrow>
          operator_loop rest (clauses @ [''('' @ sub_clause @ '')'']) (all_params @ params)
            next_offset)"

subsection \<open>Statement finalizer\<close>

text \<open>\<open>build_query\<close>: the join-set is collected first, then the predicate is compiled from
  offset 0 (the default of \<open>param_offset\<close>), and the limit is interpolated into the text.\<close>

definition build_query :: "QueryNode \<Rightarrow> int \<Rightarrow> error + (string \<times> string list)" where
  "build_query node limit =
     (case collect_required_fields node of
        Inl e \<Rightarrow> Inl e
      | Inr required_joins \<Rightarrow>
          (let base_query = build_base_query required_joins in
           case build_where_clause node 0 of
             Inl e \<Rightarrow> Inl e
           | Inr (where_clause, params, _) \<Rightarrow>
               Inr (base_query @ '' WHERE '' @ where_clause @ '' LIMIT '' @ str_int limit,
                    params)))"

section \<open>The endpoint (app/api.py)\<close>

text \<open>What \<open>search_jobs\<close> gives back: the success document (count and rows) or an
  \<open>HTTPException\<close> with its status code and detail.\<close>

datatype 'row response = Success nat "'row list" | HTTPException nat string

text \<open>The two \<open>except\<close> clauses of \<open>search_jobs\<close>, in their order: a \<open>ValueError\<close> becomes
  status 400 with the error's message, anything else status 500 with a fixed detail.\<close>

fun handle_exception :: "error \<Rightarrow> 'row response" where
  "handle_exception (ValueError msg) = HTTPException 400 msg"
| "handle_exception e = HTTPException 500 ''Internal server error''"

text \<open>\<open>search_jobs\<close>. The executor \<open>db.execute_query\<close> is outside the compiler and is a
  parameter; it may raise. The second component of the result lists the statements that were
  handed to the executor, so that an execution attempt is visible.\<close>

definition search_jobs ::
  "(string \<Rightarrow> string list \<Rightarrow> error + 'row list) \<Rightarrow> QueryNode \<Rightarrow> int
     \<Rightarrow> 'row response \<times> (string \<times> string list) list" where
  "search_jobs execute_query query limit =
     (case build_query query limit of
        Inl e \<Rightarrow> (handle_exception e, [])
      | Inr (sql_query, params) \<Rightarrow>
          (case execute_query sql_query params of
             Inl e \<Rightarrow> (handle_exception e, [(sql_query, params)])
           | Inr jobs \<Rightarrow> (Success (length jobs) jobs, [(sql_query, params)])))"

section \<open>Notions of the specification\<close>

text \<open>Well-formed trees, as the data model of the specification has them: a node is tagged
  \<open>condition\<close> and carries a condition, or it is tagged \<open>operator\<close> and carries an operator
  and a list of well-formed children, exactly one under NOT and at least one under AND and
  OR.\<close>

fun well_formed :: "QueryNode \<Rightarrow> bool" where
  "well_formed (QueryNode ty op cond ch) =
     (if ty = ''condition'' then cond \<noteq> None
      else ty = ''operator'' \<and>
        (case op of
           None \<Rightarrow> False
         | Some oper \<Rightarrow>
             (case ch of
                None \<Rightarrow> False
              | Some cs \<Rightarrow>
                  (if oper = NOT then length cs = 1 else cs \<noteq> []) \<and> list_all well_formed cs)))"

text \<open>All nodes of a tree in pre-order (a node, then the nodes of its children from left to
  right). The children of a node belong to the tree only when the node is an operator node.\<close>

fun all_nodes :: "QueryNode \<Rightarrow> QueryNode list" where
  "all_nodes (QueryNode ty op cond ch) =
     QueryNode ty op cond ch #
       (if ty = ''operator'' then
          (case ch of None \<Rightarrow> [] | Some cs \<Rightarrow> concat (map all_nodes cs))
        else [])"

text \<open>The conditions of the Condition nodes of a tree, from left to right, and the set of
  fields they reference.\<close>

definition conditions_of :: "QueryNode \<Rightarrow> Condition list" where
  "conditions_of t =
     concat (map (\<lambda>n. if type n = ''condition''
                       then (case condition n of None \<Rightarrow> [] | Some c \<Rightarrow> [c])
                       else [])
                 (all_nodes t))"

definition condition_fields :: "QueryNode \<Rightarrow> FieldType set" where
  "condition_fields t = set (map field (conditions_of t))"

text \<open>Reading the placeholders of a predicate text from left to right: every \<open>$\<close> starts a
  placeholder, and its ordinal is the decimal integer that follows (with an optional minus
  sign).\<close>

definition is_digit :: "char \<Rightarrow> bool" where
  "is_digit c = (c \<in> set ''0123456789'')"

definition digit_val :: "char \<Rightarrow> nat" where
  "digit_val c = of_char c - 48"

definition read_nat :: "string \<Rightarrow> nat" where
  "read_nat s = foldl (\<lambda>a c. 10 * a + digit_val c) 0 (takeWhile is_digit s)"

definition read_int :: "string \<Rightarrow> int" where
  "read_int s =
     (case s of
        [] \<Rightarrow> 0
      | c # r \<Rightarrow> if c = CHR ''-'' then - int (read_nat r) else int (read_nat s))"

fun placeholders :: "string \<Rightarrow> int list" where
  "placeholders [] = []"
| "placeholders (c # cs) =
     (if c = CHR ''$'' then read_int cs # placeholders cs else placeholders cs)"

text \<open>The join clauses of each field and the fixed order of the fields, as the mapping table
  of the specification gives them.\<close>

fun join_clauses :: "FieldType \<Rightarrow> string list" where
  "join_clauses ORGANIZATION = [''INNER JOIN organizations o ON jp.organization_id = o.id'']"
| "join_clauses TECHNOLOGY =
     [''INNER JOIN job_posts_tech jpt ON jp.id = jpt.job_post_id'',
      ''INNER JOIN tech t ON jpt.tech_id = t.id'']"
| "join_clauses JOB_FUNCTION =
     [''INNER JOIN job_posts_job_functions jpjf ON jp.id = jpjf.job_post_id'',
      ''INNER JOIN job_functions jf ON jpjf.job_function_id = jf.id'']"

definition join_order :: "FieldType list" where
  "join_order = [ORGANIZATION, TECHNOLOGY, JOB_FUNCTION]"

text \<open>A text can follow a placeholder without changing its ordinal when it is empty or starts
  with a character that is neither a digit nor a minus sign.\<close>

definition boundary :: "string \<Rightarrow> bool" where
  "boundary rest = (case rest of [] \<Rightarrow> True | c # _ \<Rightarrow> \<not> is_digit c \<and> c \<noteq> CHR ''-'')"

text \<open>The ordinals \<open>k + 1, \<dots>, k + n\<close>.\<close>

definition ordinals :: "int \<Rightarrow> nat \<Rightarrow> int list" where
  "ordinals k n = map (\<lambda>i. k + int i) [1..<Suc n]"

text \<open>A text \<open>s\<close> carries exactly the placeholders \<open>k + 1, \<dots>, k + n\<close>, in this order, whatever
  admissible text follows it.\<close>

definition emits :: "string \<Rightarrow> int \<Rightarrow> nat \<Rightarrow> bool" where
  "emits s k n = (\<forall>rest. boundary rest \<longrightarrow> placeholders (s @ rest) = ordinals k n @ placeholders rest)"

text \<open>The values of the conditions of a tree, from left to right, each between two wildcard
  markers.\<close>

definition wrapped :: "QueryNode \<Rightarrow> string list" where
  "wrapped t = map (\<lambda>c. ''%'' @ val c @ ''%'') (conditions_of t)"

text \<open>A tree compiles, from every offset, to its wrapped values, one placeholder for each of
  them, numbered on from the offset.\<close>

definition compiles_ok :: "QueryNode \<Rightarrow> bool" where
  "compiles_ok t = (\<forall>k. \<exists>s. build_where_clause t k = Inr (s, wrapped t, k + int (length (wrapped t)))
      \<and> emits s k (length (wrapped t)))"

section \<open>Decimal rendering and placeholder reading\<close>

lemma digit_cases:
  "d < 10 \<Longrightarrow>
   d = 0 \<or> d = 1 \<or> d = 2 \<or> d = 3 \<or> d = 4 \<or> d = 5 \<or> d = 6 \<or> d = 7 \<or> d = 8 \<or> d = (9::nat)"
  by arith

lemma is_digit_digit_char: "d < 10 \<Longrightarrow> is_digit (digit_char d)"
  by (drule digit_cases) (auto simp: is_digit_def digit_char_def)

lemma digit_val_digit_char: "d < 10 \<Longrightarrow> digit_val (digit_char d) = d"
  by (drule digit_cases) (auto simp: digit_val_def digit_char_def)

lemma digit_char_not_special: "d < 10 \<Longrightarrow> digit_char d \<noteq> CHR ''$'' \<and> digit_char d \<noteq> CHR ''-''"
  by (drule digit_cases) (auto simp: digit_char_def)

lemma str_nat_digits: "c \<in> set (str_nat n) \<Longrightarrow> is_digit c"
proof (induction n arbitrary: c rule: str_nat.induct)
  case (1 n)
  show ?case
  proof (cases "n < 10")
    case True
    with "1.prems" show ?thesis
      by (simp add: str_nat.simps [of n] is_digit_digit_char)
  next
    case False
    with "1.prems" "1.IH" show ?thesis
      by (auto simp add: str_nat.simps [of n] is_digit_digit_char)
  qed
qed

lemma str_nat_value: "foldl (\<lambda>a c. 10 * a + digit_val c) 0 (str_nat n) = n"
proof (induction n rule: str_nat.induct)
  case (1 n)
  show ?case
  proof (cases "n < 10")
    case True
    then show ?thesis
      by (simp add: str_nat.simps [of n] digit_val_digit_char)
  next
    case False
    with "1.IH" show ?thesis
      by (simp add: str_nat.simps [of n] digit_val_digit_char)
  qed
qed

lemma str_nat_nonempty: "str_nat n \<noteq> []"
  by (simp add: str_nat.simps [of n])

lemma takeWhile_boundary: "boundary rest \<Longrightarrow> takeWhile is_digit rest = []"
  by (cases rest) (auto simp: boundary_def)

lemma read_nat_str_nat: "boundary rest \<Longrightarrow> read_nat (str_nat n @ rest) = n"
proof -
  assume b: "boundary rest"
  have "takeWhile is_digit (str_nat n @ rest) = str_nat n @ takeWhile is_digit rest"
    by (rule takeWhile_append2) (rule str_nat_digits)
  with b show ?thesis
    by (simp add: read_nat_def takeWhile_boundary str_nat_value)
qed

lemma hd_str_nat_not_minus: "\<exists>c r. str_nat n = c # r \<and> c \<noteq> CHR ''-''"
proof (cases "str_nat n")
  case Nil
  then show ?thesis using str_nat_nonempty by simp
next
  case (Cons c r)
  then have "is_digit c" using str_nat_digits [of c n] by simp
  then have "c \<noteq> CHR ''-''" by (auto simp: is_digit_def)
  with Cons show ?thesis by simp
qed

lemma read_int_str_int: "boundary rest \<Longrightarrow> read_int (str_int i @ rest) = i"
proof -
  assume b: "boundary rest"
  show ?thesis
  proof (cases "i < 0")
    case True
    with b show ?thesis
      by (simp add: str_int_def read_int_def read_nat_str_nat)
  next
    case False
    obtain c r where cr: "str_nat (nat i) = c # r" "c \<noteq> CHR ''-''"
      using hd_str_nat_not_minus by blast
    have "read_nat (str_nat (nat i) @ rest) = nat i"
      using b by (rule read_nat_str_nat)
    with False cr show ?thesis
      by (simp add: str_int_def read_int_def)
  qed
qed

lemma placeholders_no_dollar: "CHR ''$'' \<notin> set a \<Longrightarrow> placeholders (a @ b) = placeholders b"
  by (induction a) auto

lemma str_int_no_dollar: "CHR ''$'' \<notin> set (str_int i)"
proof -
  have "\<And>n. CHR ''$'' \<notin> set (str_nat n)"
  proof
    fix n assume "CHR ''$'' \<in> set (str_nat n)"
    then have "is_digit CHR ''$''" by (rule str_nat_digits)
    then show False by (simp add: is_digit_def)
  qed
  then show ?thesis by (simp add: str_int_def)
qed

lemma ordinals_append: "ordinals k n @ ordinals (k + int n) m = ordinals k (n + m)"
proof (induction m)
  case 0
  then show ?case by (simp add: ordinals_def)
next
  case (Suc m)
  have step: "\<And>x j. ordinals x (Suc j) = ordinals x j @ [x + int (Suc j)]"
    by (simp add: ordinals_def)
  have "ordinals k n @ ordinals (k + int n) (Suc m)
      = (ordinals k n @ ordinals (k + int n) m) @ [k + int n + int (Suc m)]"
    by (simp add: step)
  also have "\<dots> = ordinals k (n + m) @ [k + int (Suc (n + m))]"
    by (simp add: Suc.IH)
  also have "\<dots> = ordinals k (n + Suc m)"
    by (simp add: step)
  finally show ?case .
qed

lemma emits_condition:
  assumes "CHR ''$'' \<notin> set column"
  shows "emits (column @ '' ILIKE $'' @ str_int (k + 1)) k 1"
  unfolding emits_def
proof (intro allI impI)
  fix rest assume b: "boundary rest"
  have "placeholders ((column @ '' ILIKE $'' @ str_int (k + 1)) @ rest)
      = placeholders ((column @ '' ILIKE '') @ (CHR ''$'' # str_int (k + 1) @ rest))" by simp
  also have "\<dots> = placeholders (CHR ''$'' # str_int (k + 1) @ rest)"
    using assms by (intro placeholders_no_dollar) simp
  also have "\<dots> = read_int (str_int (k + 1) @ rest) # placeholders (str_int (k + 1) @ rest)"
    by simp
  also have "\<dots> = (k + 1) # placeholders rest"
    using b by (simp add: read_int_str_int placeholders_no_dollar str_int_no_dollar)
  finally show "placeholders ((column @ '' ILIKE $'' @ str_int (k + 1)) @ rest) = ordinals k 1 @ placeholders rest"
    by (simp add: ordinals_def)
qed


lemma emits_empty: "emits [] k 0"
  by (simp add: emits_def ordinals_def)

lemma emits_prefix: "CHR ''$'' \<notin> set x \<Longrightarrow> emits s k n \<Longrightarrow> emits (x @ s) k n"
  by (simp add: emits_def placeholders_no_dollar)

lemma boundary_append: "boundary x \<Longrightarrow> x \<noteq> [] \<Longrightarrow> boundary (x @ rest)"
  by (cases x) (auto simp: boundary_def)

lemma emits_append:
  assumes a: "emits a k n" and b: "emits b (k + int n) m" and bb: "boundary b" "b \<noteq> []"
  shows "emits (a @ b) k (n + m)"
  unfolding emits_def
proof (intro allI impI)
  fix rest assume r: "boundary rest"
  have "boundary (b @ rest)" using bb by (rule boundary_append)
  with a have "placeholders (a @ b @ rest) = ordinals k n @ placeholders (b @ rest)"
    by (simp add: emits_def)
  also have "placeholders (b @ rest) = ordinals (k + int n) m @ placeholders rest"
    using b r by (simp add: emits_def)
  finally show "placeholders ((a @ b) @ rest) = ordinals k (n + m) @ placeholders rest"
    by (simp add: ordinals_append [symmetric])
qed

lemma emits_suffix:
  assumes a: "emits a k n" and x: "CHR ''$'' \<notin> set x" "boundary x" "x \<noteq> []"
  shows "emits (a @ x) k n"
proof -
  have "emits x (k + int n) 0"
    using x(1) by (simp add: emits_def ordinals_def placeholders_no_dollar)
  with a have "emits (a @ x) k (n + 0)" using x(2,3) by (rule emits_append)
  then show ?thesis by simp
qed

lemma emits_paren: "emits s k n \<Longrightarrow> emits (''('' @ s @ '')'') k n"
proof -
  assume "emits s k n"
  then have "emits (s @ '')'') k n"
    by (rule emits_suffix) (simp_all add: boundary_def is_digit_def)
  then have "emits (''('' @ (s @ '')'')) k n"
    by (rule emits_prefix [rotated]) simp
  then show ?thesis by simp
qed

lemma emits_not: "emits s k n \<Longrightarrow> emits (''NOT ('' @ s @ '')'') k n"
proof -
  assume "emits s k n"
  then have "emits (s @ '')'') k n"
    by (rule emits_suffix) (simp_all add: boundary_def is_digit_def)
  then have "emits (''NOT ('' @ (s @ '')'')) k n"
    by (rule emits_prefix [rotated]) simp
  then show ?thesis by simp
qed

lemma join_str_Cons: "join_str sep (x # xs) = (if xs = [] then x else x @ sep @ join_str sep xs)"
  by (cases xs) simp_all

lemma emits_join_Cons:
  assumes sep: "CHR ''$'' \<notin> set sep" "boundary sep" "sep \<noteq> []"
    and x: "emits x k n" and xs: "emits (join_str sep xs) (k + int n) m"
    and e: "xs = [] \<longrightarrow> m = 0"
  shows "emits (join_str sep (x # xs)) k (n + m)"
proof (cases "xs = []")
  case True
  with x e show ?thesis by simp
next
  case False
  have "emits (sep @ join_str sep xs) (k + int n) m"
    using sep(1) xs by (rule emits_prefix)
  moreover have "boundary (sep @ join_str sep xs)"
    using sep(2,3) by (rule boundary_append)
  ultimately have "emits (x @ sep @ join_str sep xs) k (n + m)"
    using x sep(3) by (intro emits_append) simp_all
  with False show ?thesis by (simp add: join_str_Cons)
qed

lemma operator_loop_ok:
  assumes sep: "CHR ''$'' \<notin> set sep" "boundary sep" "sep \<noteq> []"
  shows "(\<And>c. c \<in> set cs \<Longrightarrow> compiles_ok c) \<Longrightarrow>
    \<exists>cl'. operator_loop cs cl al k =
        Inr (cl @ cl', al @ concat (map wrapped cs), k + int (length (concat (map wrapped cs))))
      \<and> (cl' = [] \<longleftrightarrow> cs = [])
      \<and> emits (join_str sep cl') k (length (concat (map wrapped cs)))"
proof (induction cs arbitrary: cl al k)
  case Nil
  then show ?case by (simp add: emits_empty)
next
  case (Cons c cs)
  have "compiles_ok c" using Cons.prems by simp
  then obtain s where s: "build_where_clause c k = Inr (s, wrapped c, k + int (length (wrapped c)))"
      "emits s k (length (wrapped c))"
    unfolding compiles_ok_def by blast
  have "\<And>c'. c' \<in> set cs \<Longrightarrow> compiles_ok c'" using Cons.prems by simp
  from Cons.IH [OF this, of "cl @ [''('' @ s @ '')'']" "al @ wrapped c" "k + int (length (wrapped c))"]
  obtain cl' where cl': "operator_loop cs (cl @ [''('' @ s @ '')'']) (al @ wrapped c) (k + int (length (wrapped c))) =
        Inr ((cl @ [''('' @ s @ '')'']) @ cl', (al @ wrapped c) @ concat (map wrapped cs),
             k + int (length (wrapped c)) + int (length (concat (map wrapped cs))))"
      "cl' = [] \<longleftrightarrow> cs = []"
      "emits (join_str sep cl') (k + int (length (wrapped c))) (length (concat (map wrapped cs)))"
    by blast
  have "emits (join_str sep ((''('' @ s @ '')'') # cl')) k
          (length (wrapped c) + length (concat (map wrapped cs)))"
    using sep emits_paren [OF s(2)] cl'(3)
  proof (rule emits_join_Cons)
    show "cl' = [] \<longrightarrow> length (concat (map wrapped cs)) = 0"
      using cl'(2) by simp
  qed
  with s(1) cl'(1) show ?case
    by (intro exI [of _ "(''('' @ s @ '')'') # cl'"]) (simp add: add.assoc)
qed

lemma concat_map_concat_map:
  "concat (map f (concat (map g cs))) = concat (map (\<lambda>c. concat (map f (g c))) cs)"
  by (induction cs) simp_all

lemma conditions_of_node:
  "conditions_of (QueryNode ty op cond ch) =
     (if ty = ''condition'' then (case cond of None \<Rightarrow> [] | Some c \<Rightarrow> [c])
      else if ty = ''operator'' then (case ch of None \<Rightarrow> [] | Some cs \<Rightarrow> concat (map conditions_of cs))
      else [])"
proof (cases "ty = ''operator'' \<and> ch \<noteq> None")
  case True
  then obtain cs where cs: "ch = Some cs" by auto
  have "conditions_of (QueryNode ty op cond ch) = concat (map conditions_of cs)"
    unfolding conditions_of_def using True cs
    by (simp add: concat_map_concat_map)
  with True cs show ?thesis by simp
next
  case False
  then show ?thesis
    by (auto simp: conditions_of_def)
qed

lemma wrapped_node:
  "wrapped (QueryNode ty op cond ch) =
     (if ty = ''condition'' then (case cond of None \<Rightarrow> [] | Some c \<Rightarrow> [''%'' @ val c @ ''%''])
      else if ty = ''operator'' then (case ch of None \<Rightarrow> [] | Some cs \<Rightarrow> concat (map wrapped cs))
      else [])"
proof -
  have "\<And>cs. map (\<lambda>c. ''%'' @ val c @ ''%'') (concat (map conditions_of cs)) = concat (map wrapped cs)"
    subgoal for cs by (induction cs) (simp_all add: wrapped_def)
    done
  then show ?thesis
    unfolding wrapped_def [of "QueryNode ty op cond ch"] conditions_of_node
    by (simp split: option.splits)
qed

lemma field_mapping_total: "\<exists>column. field_mapping f = Some column \<and> CHR ''$'' \<notin> set column"
  by (cases f) (simp_all add: field_mapping_def)

lemma well_formed_compiles: "well_formed t \<Longrightarrow> compiles_ok t"
proof (induction t)
  case (QueryNode ty op cond ch)
  show ?case
  proof (cases "ty = ''condition''")
    case True
    with QueryNode.prems obtain c where c: "cond = Some c" by auto
    obtain column where col: "field_mapping (field c) = Some column" "CHR ''$'' \<notin> set column"
      using field_mapping_total by blast
    have "\<And>k. emits (column @ '' ILIKE $'' @ str_int (k + 1)) k 1"
      using col(2) by (rule emits_condition)
    with True c col(1) show ?thesis
      by (simp add: compiles_ok_def wrapped_node build_condition_def)
  next
    case False
    with QueryNode.prems obtain oper cs where
      ty: "ty = ''operator''" and op: "op = Some oper" and ch: "ch = Some cs"
      and ar: "if oper = NOT then length cs = 1 else cs \<noteq> []" and wf: "list_all well_formed cs"
      by (auto split: option.splits)
    have kids: "\<And>c. c \<in> set cs \<Longrightarrow> compiles_ok c"
      using QueryNode.IH wf ch by (auto simp: list_all_iff)
    show ?thesis
    proof (cases "oper = NOT")
      case True
      with ar obtain c where cs: "cs = [c]" by (cases cs) auto
      then have c: "compiles_ok c" using kids by simp
      show ?thesis
        unfolding compiles_ok_def
      proof
        fix k
        from c obtain s where s: "build_where_clause c k = Inr (s, wrapped c, k + int (length (wrapped c)))"
          "emits s k (length (wrapped c))"
          unfolding compiles_ok_def by blast
        have "emits (''NOT ('' @ s @ '')'') k (length (wrapped c))"
          using s(2) by (rule emits_not)
        with s(1) show "\<exists>s. build_where_clause (QueryNode ty op cond ch) k =
            Inr (s, wrapped (QueryNode ty op cond ch), k + int (length (wrapped (QueryNode ty op cond ch))))
            \<and> emits s k (length (wrapped (QueryNode ty op cond ch)))"
          using True ty op ch cs by (simp add: wrapped_node)
      qed
    next
      case nn: False
      define sep where "sep = (if op = Some AND then '' AND '' else '' OR '')"
      have sep: "CHR ''$'' \<notin> set sep" "boundary sep" "sep \<noteq> []"
        by (simp_all add: sep_def boundary_def is_digit_def)
      show ?thesis
        unfolding compiles_ok_def
      proof
        fix k
        from operator_loop_ok [OF sep kids, of cs "[]" "[]" k]
        obtain cl' where cl': "operator_loop cs [] [] k =
            Inr (cl', concat (map wrapped cs), k + int (length (concat (map wrapped cs))))"
          "emits (join_str sep cl') k (length (concat (map wrapped cs)))"
          by auto
        then show "\<exists>s. build_where_clause (QueryNode ty op cond ch) k =
            Inr (s, wrapped (QueryNode ty op cond ch), k + int (length (wrapped (QueryNode ty op cond ch))))
            \<and> emits s k (length (wrapped (QueryNode ty op cond ch)))"
          using nn ty op ch by (simp add: wrapped_node sep_def)
      qed
    qed
  qed
qed

section \<open>Properties of the collector and of the loops\<close>

lemma set_fields_concat:
  "set (map field (concat (map conditions_of cs))) = (\<Union>c\<in>set cs. condition_fields c)"
  by (induction cs) (simp_all add: condition_fields_def)

lemma condition_fields_node:
  "condition_fields (QueryNode ty op cond ch) =
     (if ty = ''condition'' then (case cond of None \<Rightarrow> {} | Some c \<Rightarrow> {field c})
      else if ty = ''operator'' then
        (case ch of None \<Rightarrow> {} | Some cs \<Rightarrow> (\<Union>c\<in>set cs. condition_fields c))
      else {})"
proof -
  have eq: "condition_fields (QueryNode ty op cond ch) =
      set (map field (conditions_of (QueryNode ty op cond ch)))"
    by (simp only: condition_fields_def)
  show ?thesis
  proof (cases "ty = ''condition''")
    case True
    then show ?thesis
      unfolding eq conditions_of_node by (cases cond) simp_all
  next
    case False
    then show ?thesis
      unfolding eq conditions_of_node
      by (cases ch) (simp_all add: set_fields_concat del: set_map set_concat map_concat)
  qed
qed

lemma collect_loop_ok:
  "(\<And>c. c \<in> set cs \<Longrightarrow> collect_required_fields c = Inr (condition_fields c)) \<Longrightarrow>
   collect_loop cs acc = Inr (acc \<union> (\<Union>c\<in>set cs. condition_fields c))"
proof (induction cs arbitrary: acc)
  case Nil
  then show ?case by simp
next
  case (Cons c cs)
  have "collect_required_fields c = Inr (condition_fields c)"
    using Cons.prems by simp
  moreover have "collect_loop cs (acc \<union> condition_fields c) =
      Inr ((acc \<union> condition_fields c) \<union> (\<Union>c\<in>set cs. condition_fields c))"
    using Cons.prems by (intro Cons.IH) simp
  ultimately show ?case by (simp add: Un_assoc)
qed

lemma well_formed_collect:
  "well_formed t \<Longrightarrow> collect_required_fields t = Inr (condition_fields t)"
proof (induction t)
  case (QueryNode ty op cond ch)
  show ?case
  proof (cases "ty = ''condition''")
    case True
    with QueryNode.prems show ?thesis
      by (auto simp: condition_fields_node)
  next
    case False
    with QueryNode.prems obtain oper cs where
      ty: "ty = ''operator''" and ch: "ch = Some cs" and wf: "list_all well_formed cs"
      by (auto split: option.splits)
    have "\<And>c. c \<in> set cs \<Longrightarrow> collect_required_fields c = Inr (condition_fields c)"
      using QueryNode.IH wf ch by (auto simp: list_all_iff)
    then have "collect_loop cs {} = Inr ({} \<union> (\<Union>c\<in>set cs. condition_fields c))"
      by (rule collect_loop_ok)
    with ty ch show ?thesis
      by (cases cs) (simp_all add: condition_fields_node)
  qed
qed


lemma operator_loop_error:
  "operator_loop cs cl al k = Inl e \<Longrightarrow> \<exists>c\<in>set cs. \<exists>k'. build_where_clause c k' = Inl e"
proof (induction cs arbitrary: cl al k)
  case Nil
  then show ?case by simp
next
  case (Cons c cs)
  show ?case
  proof (cases "build_where_clause c k")
    case (Inl e')
    with Cons.prems have "e' = e" by simp
    with Inl show ?thesis by auto
  next
    case (Inr r)
    obtain s ps k1 where r: "r = (s, ps, k1)" by (cases r)
    with Inr Cons.prems have "operator_loop cs (cl @ [''('' @ s @ '')'']) (al @ ps) k1 = Inl e"
      by simp
    then have "\<exists>c\<in>set cs. \<exists>k'. build_where_clause c k' = Inl e" by (rule Cons.IH)
    then show ?thesis by auto
  qed
qed

lemma build_operator_error:
  assumes "build_operator (QueryNode ty op cond ch) k = Inl (ValueError m)"
  shows "\<exists>cs c k'. ch = Some cs \<and> c \<in> set cs \<and> build_where_clause c k' = Inl (ValueError m)"
proof (cases ch)
  case None
  with assms show ?thesis by (simp split: if_splits)
next
  case (Some cs)
  show ?thesis
  proof (cases "op = Some NOT")
    case True
    show ?thesis
    proof (cases cs)
      case Nil
      with assms Some True show ?thesis by simp
    next
      case (Cons c rest)
      with assms Some True have "build_where_clause c k = Inl (ValueError m)"
        by (cases "build_where_clause c k") (simp_all split: prod.splits)
      with Some Cons show ?thesis by auto
    qed
  next
    case False
    with assms Some have "operator_loop cs [] [] k = Inl (ValueError m)"
      by (cases "operator_loop cs [] [] k") (simp_all split: prod.splits)
    then obtain c k' where "c \<in> set cs" "build_where_clause c k' = Inl (ValueError m)"
      using operator_loop_error by blast
    with Some show ?thesis by blast
  qed
qed

lemma value_error_origin:
  "build_where_clause t k = Inl (ValueError m) \<Longrightarrow>
   \<exists>n\<in>set (all_nodes t). type n \<noteq> ''condition'' \<and> type n \<noteq> ''operator''
      \<and> m = ''Unknown node type: '' @ type n"
proof (induction t arbitrary: k)
  case (QueryNode ty op cond ch)
  let ?node = "QueryNode ty op cond ch"
  show ?case
  proof (cases "ty = ''condition''")
    case True
    with QueryNode.prems have "build_condition cond k = Inl (ValueError m)" by simp
    then have False
      by (simp add: build_condition_def split: option.splits)
    then show ?thesis ..
  next
    case nc: False
    show ?thesis
    proof (cases "ty = ''operator''")
      case False
      with nc QueryNode.prems have "m = ''Unknown node type: '' @ ty" by simp
      with nc False show ?thesis by simp
    next
      case True
      with QueryNode.prems have "build_operator ?node k = Inl (ValueError m)" by simp
      then obtain cs c k' where c: "ch = Some cs" "c \<in> set cs"
        "build_where_clause c k' = Inl (ValueError m)"
        using build_operator_error by blast
      have "\<exists>n\<in>set (all_nodes c). type n \<noteq> ''condition'' \<and> type n \<noteq> ''operator''
          \<and> m = ''Unknown node type: '' @ type n"
        using c by (intro QueryNode.IH [of cs c k']) simp_all
      then obtain n where n: "n \<in> set (all_nodes c)" "type n \<noteq> ''condition''"
        "type n \<noteq> ''operator''" "m = ''Unknown node type: '' @ type n" by blast
      have "n \<in> set (all_nodes ?node)"
        using n(1) c(1,2) True by auto
      with n show ?thesis by blast
    qed
  qed
qed

lemma operator_loop_indexed:
  "length ss = length cs \<Longrightarrow> length pss = length cs \<Longrightarrow> length offs = Suc (length cs) \<Longrightarrow>
   (\<forall>i<length cs. build_where_clause (cs ! i) (offs ! i) = Inr (ss ! i, pss ! i, offs ! Suc i)) \<Longrightarrow>
   operator_loop cs cl al (hd offs) =
     Inr (cl @ map (\<lambda>s. ''('' @ s @ '')'') ss, al @ concat pss, last offs)"
proof (induction cs arbitrary: ss pss offs cl al)
  case Nil
  then show ?case by (cases offs) auto
next
  case (Cons c cs)
  from Cons.prems(1) obtain s ss' where ss: "ss = s # ss'" by (cases ss) auto
  from Cons.prems(2) obtain p pss' where pss: "pss = p # pss'" by (cases pss) auto
  from Cons.prems(3) obtain o0 offs' where offs: "offs = o0 # offs'" by (cases offs) auto
  with Cons.prems(3) obtain o1 offs'' where offs': "offs' = o1 # offs''" by (cases offs') auto
  have first: "build_where_clause c o0 = Inr (s, p, o1)"
    using Cons.prems(4) ss pss offs offs' by auto
  have rest: "\<forall>i<length cs. build_where_clause (cs ! i) (offs' ! i) = Inr (ss' ! i, pss' ! i, offs' ! Suc i)"
  proof (intro allI impI)
    fix i assume "i < length cs"
    then have "Suc i < length (c # cs)" by simp
    with Cons.prems(4) have "build_where_clause ((c # cs) ! Suc i) (offs ! Suc i)
        = Inr (ss ! Suc i, pss ! Suc i, offs ! Suc (Suc i))" by blast
    then show "build_where_clause (cs ! i) (offs' ! i) = Inr (ss' ! i, pss' ! i, offs' ! Suc i)"
      by (simp add: ss pss offs)
  qed
  have "operator_loop cs (cl @ [''('' @ s @ '')'']) (al @ p) (hd offs') =
      Inr ((cl @ [''('' @ s @ '')'']) @ map (\<lambda>s. ''('' @ s @ '')'') ss', (al @ p) @ concat pss', last offs')"
    using Cons.prems(1-3) rest by (intro Cons.IH) (simp_all add: ss pss offs)
  with first show ?case
    by (simp add: ss pss offs offs')
qed

lemma ordinals_length: "length (ordinals k n) = n"
  by (simp add: ordinals_def)

lemma ordinals_nth: "i < n \<Longrightarrow> ordinals k n ! i = k + int i + 1"
  by (simp add: ordinals_def nth_map_upt del: upt_Suc)


section \<open>The claims\<close>

lemmas eval_defs = build_query_def build_base_query_def build_condition_def field_mapping_def
  str_int_def str_nat.simps digit_char_def

lemmas read_defs = read_int_def read_nat_def is_digit_def digit_val_def

text \<open>Claim C2. A Condition node with field \<open>f\<close> and value \<open>v\<close>, compiled at offset \<open>k\<close>, gives the
  predicate \<open><column of f> ILIKE $<k+1>\<close>, the single parameter \<open>%v%\<close> and the next offset
  \<open>k + 1\<close>. The condition organization = apple, compiled as a whole query, gives the predicate
  \<open>o.name ILIKE $1\<close>, the parameter list \<open>[%apple%]\<close> and a base statement whose only join is
  the one of organizations.\<close>

theorem condition_compiles:
  "build_where_clause (QueryNode ''condition'' op (Some c) ch) k =
     Inr ((case field c of ORGANIZATION \<Rightarrow> ''o.name'' | TECHNOLOGY \<Rightarrow> ''t.name''
             | JOB_FUNCTION \<Rightarrow> ''jf.name'') @ '' ILIKE $'' @ str_int (k + 1),
          [''%'' @ val c @ ''%''], k + 1)
   \<and> build_query (QueryNode ''condition'' None
          (Some \<lparr>field = ORGANIZATION, val = ''apple''\<rparr>) None) 10 =
     Inr (''SELECT DISTINCT jp.id, jp.datetime_pulled FROM job_posts jp INNER JOIN organizations o ON jp.organization_id = o.id WHERE o.name ILIKE $1 LIMIT 10'',
          [''%apple%''])"
  by (cases "field c") (simp_all add: eval_defs)

theorem condition_compiles_witness:
  "build_where_clause (QueryNode ''condition'' None
      (Some \<lparr>field = TECHNOLOGY, val = ''python''\<rparr>) None) 4 =
     Inr (''t.name ILIKE $5'', [''%python%''], 5)"
  using condition_compiles [of None "\<lparr>field = TECHNOLOGY, val = ''python''\<rparr>" None 4]
  by (simp add: str_int_def str_nat.simps digit_char_def)

text \<open>Claim C1. For every well-formed tree and every start offset \<open>k\<close> the compiler succeeds;
  the predicate it emits has as many placeholders as the parameter list has entries; read from
  left to right, the \<open>N\<close>-th placeholder has the ordinal \<open>k + N\<close> (positions in the lists below
  count from 0); the next offset is \<open>k\<close> plus the number of parameters; and the parameters are
  the wrapped values of the tree's conditions from left to right.\<close>

theorem placeholders_match_parameters:
  assumes "well_formed t"
  shows "\<exists>s ps. build_where_clause t k = Inr (s, ps, k + int (length ps))
           \<and> length (placeholders s) = length ps
           \<and> (\<forall>n<length ps. placeholders s ! n = k + int n + 1)
           \<and> ps = map (\<lambda>c. ''%'' @ val c @ ''%'') (conditions_of t)"
proof -
  from assms have "compiles_ok t" by (rule well_formed_compiles)
  then obtain s where s: "build_where_clause t k = Inr (s, wrapped t, k + int (length (wrapped t)))"
    "emits s k (length (wrapped t))"
    unfolding compiles_ok_def by blast
  have "boundary []" by (simp add: boundary_def)
  with s(2) have "placeholders (s @ []) = ordinals k (length (wrapped t)) @ placeholders []"
    unfolding emits_def by blast
  then have p: "placeholders s = ordinals k (length (wrapped t))" by simp
  have "length (placeholders s) = length (wrapped t)"
    by (simp add: p ordinals_length)
  moreover have "\<forall>n<length (wrapped t). placeholders s ! n = k + int n + 1"
    by (simp add: p ordinals_nth)
  moreover have "wrapped t = map (\<lambda>c. ''%'' @ val c @ ''%'') (conditions_of t)"
    by (simp add: wrapped_def)
  ultimately show ?thesis using s(1) by blast
qed

theorem placeholders_match_parameters_witness:
  "well_formed (QueryNode ''operator'' (Some AND) None (Some [
       QueryNode ''operator'' (Some NOT) None (Some [
         QueryNode ''operator'' (Some OR) None (Some [
           QueryNode ''condition'' None (Some \<lparr>field = ORGANIZATION, val = ''google''\<rparr>) None,
           QueryNode ''condition'' None (Some \<lparr>field = ORGANIZATION, val = ''apple''\<rparr>) None])]),
       QueryNode ''condition'' None (Some \<lparr>field = JOB_FUNCTION, val = ''data''\<rparr>) None]))
   \<and> (\<exists>s ps. build_where_clause (QueryNode ''operator'' (Some AND) None (Some [
       QueryNode ''operator'' (Some NOT) None (Some [
         QueryNode ''operator'' (Some OR) None (Some [
           QueryNode ''condition'' None (Some \<lparr>field = ORGANIZATION, val = ''google''\<rparr>) None,
           QueryNode ''condition'' None (Some \<lparr>field = ORGANIZATION, val = ''apple''\<rparr>) None])]),
       QueryNode ''condition'' None (Some \<lparr>field = JOB_FUNCTION, val = ''data''\<rparr>) None])) 0
        = Inr (s, ps, 3)
      \<and> s = ''(NOT ((o.name ILIKE $1) OR (o.name ILIKE $2))) AND (jf.name ILIKE $3)''
      \<and> ps = [''%google%'', ''%apple%'', ''%data%'']
      \<and> placeholders s = [1, 2, 3])"
  using placeholders_match_parameters [of "QueryNode ''operator'' (Some AND) None (Some [
       QueryNode ''operator'' (Some NOT) None (Some [
         QueryNode ''operator'' (Some OR) None (Some [
           QueryNode ''condition'' None (Some \<lparr>field = ORGANIZATION, val = ''google''\<rparr>) None,
           QueryNode ''condition'' None (Some \<lparr>field = ORGANIZATION, val = ''apple''\<rparr>) None])]),
       QueryNode ''condition'' None (Some \<lparr>field = JOB_FUNCTION, val = ''data''\<rparr>) None])" 0]
  by (simp add: eval_defs read_defs)

text \<open>Claim C3. An AND or OR node compiles its children from left to right, each from the
  offset the one before it returned (the list \<open>offsets\<close> records them, starting at the node's
  own offset); it puts each child's predicate between parentheses and joins them with
  \<open> AND \<close> or \<open> OR \<close>; its parameters are the children's parameters concatenated in the
  same order, and its next offset is the last child's. The AND of organization = apple and
  technology = .net gives \<open>(o.name ILIKE $1) AND (t.name ILIKE $2)\<close> with the two parameters in
  that order.\<close>

theorem and_or_compiles:
  assumes "oper = AND \<or> oper = OR"
    and "length clauses = length cs" and "length params = length cs"
    and "length offsets = Suc (length cs)"
    and "\<forall>i<length cs. build_where_clause (cs ! i) (offsets ! i) =
            Inr (clauses ! i, params ! i, offsets ! Suc i)"
  shows "build_where_clause (QueryNode ''operator'' (Some oper) cond (Some cs)) (hd offsets) =
     Inr (join_str (if oper = AND then '' AND '' else '' OR '')
            (map (\<lambda>s. ''('' @ s @ '')'') clauses),
          concat params, last offsets)"
proof -
  have "operator_loop cs [] [] (hd offsets) =
      Inr ([] @ map (\<lambda>s. ''('' @ s @ '')'') clauses, [] @ concat params, last offsets)"
    using assms(2-5) by (rule operator_loop_indexed)
  with assms(1) show ?thesis by auto
qed

theorem and_or_compiles_witness:
  "build_where_clause (QueryNode ''operator'' (Some AND) None (Some [
       QueryNode ''condition'' None (Some \<lparr>field = ORGANIZATION, val = ''apple''\<rparr>) None,
       QueryNode ''condition'' None (Some \<lparr>field = TECHNOLOGY, val = ''.net''\<rparr>) None])) 0 =
     Inr (''(o.name ILIKE $1) AND (t.name ILIKE $2)'', [''%apple%'', ''%.net%''], 2)"
proof -
  let ?cs = "[QueryNode ''condition'' None (Some \<lparr>field = ORGANIZATION, val = ''apple''\<rparr>) None,
       QueryNode ''condition'' None (Some \<lparr>field = TECHNOLOGY, val = ''.net''\<rparr>) None]"
  have h: "\<forall>i<length ?cs. build_where_clause (?cs ! i) ([0, 1, 2] ! i) =
      Inr ([''o.name ILIKE $1'', ''t.name ILIKE $2''] ! i, [[''%apple%''], [''%.net%'']] ! i,
           [0, 1, 2] ! Suc i)"
    by (simp add: eval_defs less_Suc_eq)
  show ?thesis
    using and_or_compiles [of AND "[''o.name ILIKE $1'', ''t.name ILIKE $2'']" ?cs
        "[[''%apple%''], [''%.net%'']]" "[0, 1, 2]" None, OF _ _ _ _ h]
    by simp
qed

text \<open>Claim C4. A NOT node with exactly one child, compiled at offset \<open>k\<close>, gives
  \<open>NOT (<the child's predicate>)\<close>, exactly the child's parameters and the child's next
  offset; in a loop over siblings, whatever follows the NOT node is compiled from that
  offset.\<close>

theorem not_compiles:
  assumes "build_where_clause child k = Inr (sub_clause, params, next_offset)"
  shows "build_where_clause (QueryNode ''operator'' (Some NOT) cond (Some [child])) k =
       Inr (''NOT ('' @ sub_clause @ '')'', params, next_offset)
    \<and> operator_loop (QueryNode ''operator'' (Some NOT) cond (Some [child]) # rest)
         clauses all_params k =
       operator_loop rest (clauses @ [''(NOT ('' @ sub_clause @ ''))''])
         (all_params @ params) next_offset"
  using assms by simp

theorem not_compiles_witness:
  "build_where_clause (QueryNode ''operator'' (Some NOT) None (Some [
       QueryNode ''condition'' None (Some \<lparr>field = TECHNOLOGY, val = ''java''\<rparr>) None])) 2 =
     Inr (''NOT (t.name ILIKE $3)'', [''%java%''], 3)"
proof -
  have h: "build_where_clause
      (QueryNode ''condition'' None (Some \<lparr>field = TECHNOLOGY, val = ''java''\<rparr>) None) 2 =
      Inr (''t.name ILIKE $3'', [''%java%''], 3)"
    by (simp add: eval_defs)
  from not_compiles [OF h, of None "[]" "[]" "[]"] show ?thesis by simp
qed

text \<open>Claim C5. For every well-formed tree the collector returns exactly the set of fields of
  the Condition nodes of the tree, at any depth and under any operators; for
  NOT(technology) AND NOT(organization) that is \<open>{technology, organization}\<close>.\<close>

theorem collected_fields_exact:
  assumes "well_formed t"
  shows "collect_required_fields t = Inr (condition_fields t)"
  using assms by (rule well_formed_collect)

theorem collected_fields_exact_witness:
  "collect_required_fields (QueryNode ''operator'' (Some AND) None (Some [
       QueryNode ''operator'' (Some NOT) None (Some [
         QueryNode ''condition'' None (Some \<lparr>field = TECHNOLOGY, val = ''java''\<rparr>) None]),
       QueryNode ''operator'' (Some NOT) None (Some [
         QueryNode ''condition'' None (Some \<lparr>field = ORGANIZATION, val = ''apple''\<rparr>) None])]))
   = Inr {TECHNOLOGY, ORGANIZATION}"
proof -
  let ?t = "QueryNode ''operator'' (Some AND) None (Some [
       QueryNode ''operator'' (Some NOT) None (Some [
         QueryNode ''condition'' None (Some \<lparr>field = TECHNOLOGY, val = ''java''\<rparr>) None]),
       QueryNode ''operator'' (Some NOT) None (Some [
         QueryNode ''condition'' None (Some \<lparr>field = ORGANIZATION, val = ''apple''\<rparr>) None])])"
  have h: "well_formed ?t" by simp
  have "condition_fields ?t = {TECHNOLOGY, ORGANIZATION}"
    by (simp add: condition_fields_def conditions_of_def)
  with collected_fields_exact [OF h] show ?thesis by simp
qed

text \<open>Claim C6. For every join-set the base statement is the SELECT and FROM parts followed by
  the join clauses of exactly those fields of the fixed order organization, technology,
  job\_function that are in the join-set, each clause once, all parts joined by single
  spaces.\<close>

theorem base_query_joins:
  "build_base_query S =
     join_str '' '' ([''SELECT DISTINCT jp.id, jp.datetime_pulled'', ''FROM job_posts jp''] @
                     concat (map join_clauses (filter (\<lambda>f. f \<in> S) join_order)))
   \<and> distinct (concat (map join_clauses (filter (\<lambda>f. f \<in> S) join_order)))"
  by (simp add: build_base_query_def join_order_def)

theorem base_query_joins_witness:
  "build_base_query {TECHNOLOGY, ORGANIZATION} =
  ''SELECT DISTINCT jp.id, jp.datetime_pulled FROM job_posts jp INNER JOIN organizations o ON jp.organization_id = o.id INNER JOIN job_posts_tech jpt ON jp.id = jpt.job_post_id INNER JOIN tech t ON jpt.tech_id = t.id''"
  using base_query_joins [of "{TECHNOLOGY, ORGANIZATION}"]
  by (simp add: join_order_def)

text \<open>Claim C7. For every well-formed tree and every limit the compiler returns the text
  \<open><base statement> WHERE <predicate> LIMIT <limit>\<close>, the limit written as a decimal literal
  whatever its value, and the parameter list is the one of the predicate compiler.\<close>

theorem build_query_text:
  assumes "well_formed t"
  shows "\<exists>required where_clause params next_offset.
           collect_required_fields t = Inr required
         \<and> build_where_clause t 0 = Inr (where_clause, params, next_offset)
         \<and> build_query t limit =
             Inr (build_base_query required @ '' WHERE '' @ where_clause @ '' LIMIT ''
                    @ str_int limit,
                  params)"
proof -
  have c: "collect_required_fields t = Inr (condition_fields t)"
    using assms by (rule well_formed_collect)
  from assms have "compiles_ok t" by (rule well_formed_compiles)
  then obtain s where s: "build_where_clause t 0 = Inr (s, wrapped t, 0 + int (length (wrapped t)))"
    unfolding compiles_ok_def by blast
  have "build_query t limit =
      Inr (build_base_query (condition_fields t) @ '' WHERE '' @ s @ '' LIMIT '' @ str_int limit,
           wrapped t)"
    by (simp add: build_query_def c s)
  with c s show ?thesis by blast
qed

theorem build_query_text_witness:
  "build_query (QueryNode ''operator'' (Some OR) None (Some [
       QueryNode ''condition'' None (Some \<lparr>field = JOB_FUNCTION, val = ''10''\<rparr>) None,
       QueryNode ''condition'' None (Some \<lparr>field = ORGANIZATION, val = ''apple''\<rparr>) None])) (- 5) =
     Inr (''SELECT DISTINCT jp.id, jp.datetime_pulled FROM job_posts jp INNER JOIN organizations o ON jp.organization_id = o.id INNER JOIN job_posts_job_functions jpjf ON jp.id = jpjf.job_post_id INNER JOIN job_functions jf ON jpjf.job_function_id = jf.id WHERE (jf.name ILIKE $1) OR (o.name ILIKE $2) LIMIT -5'',
          [''%10%'', ''%apple%''])"
proof -
  let ?t = "QueryNode ''operator'' (Some OR) None (Some [
       QueryNode ''condition'' None (Some \<lparr>field = JOB_FUNCTION, val = ''10''\<rparr>) None,
       QueryNode ''condition'' None (Some \<lparr>field = ORGANIZATION, val = ''apple''\<rparr>) None])"
  have h: "well_formed ?t" by simp
  from build_query_text [OF h, of "- 5"] show ?thesis
    by (simp add: eval_defs)
qed

text \<open>Claim C8. A node whose tag is neither \<open>condition\<close> nor \<open>operator\<close> makes the predicate
  compiler fail with a \<open>ValueError\<close> whose message names the tag; every \<open>ValueError\<close> of the
  predicate compiler is of this kind, raised for such a node of the tree; and the endpoint
  answers a \<open>ValueError\<close> of the compiler with status 400 and the message, without handing
  anything to the executor.\<close>

theorem unknown_type_rejected:
  assumes "ty \<noteq> ''condition''" and "ty \<noteq> ''operator''"
  shows "build_where_clause (QueryNode ty op cond ch) k =
           Inl (ValueError (''Unknown node type: '' @ ty))
       \<and> build_query (QueryNode ty op cond ch) limit =
           Inl (ValueError (''Unknown node type: '' @ ty))
       \<and> search_jobs execute_query (QueryNode ty op cond ch) limit =
           (HTTPException 400 (''Unknown node type: '' @ ty), [])
       \<and> (\<forall>t j m. build_where_clause t j = Inl (ValueError m) \<longrightarrow>
             (\<exists>n\<in>set (all_nodes t). type n \<noteq> ''condition'' \<and> type n \<noteq> ''operator''
                \<and> m = ''Unknown node type: '' @ type n))
       \<and> (\<forall>t m. build_query t limit = Inl (ValueError m) \<longrightarrow>
             search_jobs execute_query t limit = (HTTPException 400 m, []))"
proof -
  have d: "\<forall>t m. build_query t limit = Inl (ValueError m) \<longrightarrow>
             search_jobs execute_query t limit = (HTTPException 400 m, [])"
    by (simp add: search_jobs_def)
  have a: "build_where_clause (QueryNode ty op cond ch) k =
      Inl (ValueError (''Unknown node type: '' @ ty))"
    using assms by simp
  have b: "build_query (QueryNode ty op cond ch) limit =
      Inl (ValueError (''Unknown node type: '' @ ty))"
    using assms by (simp add: build_query_def)
  have c: "search_jobs execute_query (QueryNode ty op cond ch) limit =
      (HTTPException 400 (''Unknown node type: '' @ ty), [])"
    by (simp add: search_jobs_def b)
  have e: "\<forall>t j m. build_where_clause t j = Inl (ValueError m) \<longrightarrow>
             (\<exists>n\<in>set (all_nodes t). type n \<noteq> ''condition'' \<and> type n \<noteq> ''operator''
                \<and> m = ''Unknown node type: '' @ type n)"
    using value_error_origin by blast
  from a b c d e show ?thesis by (intro conjI)
qed

theorem unknown_type_rejected_witness:
  "search_jobs (\<lambda>q ps. Inr [()]) (QueryNode ''group'' (Some AND) None (Some [])) 10 =
     (HTTPException 400 ''Unknown node type: group'', [])"
proof -
  have h1: "''group'' \<noteq> ''condition''" by simp
  have h2: "''group'' \<noteq> ''operator''" by simp
  from unknown_type_rejected [OF h1 h2, where execute_query = "\<lambda>q ps. Inr [()]"
      and op = "Some AND" and cond = None and ch = "Some []" and limit = 10 and k = 0]
  show ?thesis by simp
qed

text \<open>Claim C9 as stated fails: an AND node with an empty list of children compiles without
  any error, to a statement with an empty predicate, and a NOT node with an empty list of
  children fails with \<open>IndexError\<close>, which the endpoint answers with status 500.\<close>

theorem arity_validated_counterexample:
  "build_query (QueryNode ''operator'' (Some AND) None (Some [])) 10 =
     Inr (''SELECT DISTINCT jp.id, jp.datetime_pulled FROM job_posts jp WHERE  LIMIT 10'', [])
   \<and> build_query (QueryNode ''operator'' (Some NOT) None (Some [])) 10 = Inl IndexError
   \<and> (handle_exception IndexError :: unit response) =
        HTTPException 500 ''Internal server error''"
  by (simp add: eval_defs)

text \<open>Claim C9, amended. The compiler does not check the number of children. An AND or OR
  node with an empty list of children compiles without error to the empty predicate with no
  parameters, and the statement \<open><base statement without joins> WHERE  LIMIT <limit>\<close> is
  handed to the executor. A NOT node with an empty list of children raises \<open>IndexError\<close>, which
  is no validation error: the endpoint answers with status 500 and hands nothing to the
  executor.\<close>

theorem arity_not_validated:
  "(op = Some AND \<or> op = Some OR \<longrightarrow>
      build_where_clause (QueryNode ''operator'' op cond (Some [])) k = Inr ('''', [], k)
    \<and> build_query (QueryNode ''operator'' op cond (Some [])) limit =
        Inr (''SELECT DISTINCT jp.id, jp.datetime_pulled FROM job_posts jp WHERE  LIMIT ''
               @ str_int limit, [])
    \<and> snd (search_jobs execute_query (QueryNode ''operator'' op cond (Some [])) limit) =
        [(''SELECT DISTINCT jp.id, jp.datetime_pulled FROM job_posts jp WHERE  LIMIT ''
            @ str_int limit, [])])
   \<and> build_where_clause (QueryNode ''operator'' (Some NOT) cond (Some [])) k = Inl IndexError
   \<and> build_query (QueryNode ''operator'' (Some NOT) cond (Some [])) limit = Inl IndexError
   \<and> search_jobs execute_query (QueryNode ''operator'' (Some NOT) cond (Some [])) limit =
        (HTTPException 500 ''Internal server error'', [])"
proof -
  have nb: "build_query (QueryNode ''operator'' (Some NOT) cond (Some [])) limit = Inl IndexError"
    by (simp add: build_query_def)
  have ns: "search_jobs execute_query (QueryNode ''operator'' (Some NOT) cond (Some [])) limit =
        (HTTPException 500 ''Internal server error'', [])"
    by (simp add: search_jobs_def nb)
  have ao: "op = Some AND \<or> op = Some OR \<Longrightarrow>
      build_query (QueryNode ''operator'' op cond (Some [])) limit =
        Inr (''SELECT DISTINCT jp.id, jp.datetime_pulled FROM job_posts jp WHERE  LIMIT ''
               @ str_int limit, [])"
    by (auto simp add: build_query_def build_base_query_def)
  have as: "op = Some AND \<or> op = Some OR \<Longrightarrow>
      snd (search_jobs execute_query (QueryNode ''operator'' op cond (Some [])) limit) =
        [(''SELECT DISTINCT jp.id, jp.datetime_pulled FROM job_posts jp WHERE  LIMIT ''
            @ str_int limit, [])]"
    by (simp only: search_jobs_def ao) (simp split: sum.splits)
  have aw: "op = Some AND \<or> op = Some OR \<Longrightarrow>
      build_where_clause (QueryNode ''operator'' op cond (Some [])) k = Inr ('''', [], k)"
    by auto
  from nb ns ao as aw show ?thesis by simp
qed

theorem arity_not_validated_witness:
  "search_jobs (\<lambda>q ps. Inl (ExecutionError ''syntax error at or near LIMIT''))
      (QueryNode ''operator'' (Some OR) None (Some [])) 10 =
     (HTTPException 500 ''Internal server error'',
      [(''SELECT DISTINCT jp.id, jp.datetime_pulled FROM job_posts jp WHERE  LIMIT 10'', [])])"
  using arity_not_validated [where op = "Some OR" and cond = None and k = 0 and limit = 10
      and execute_query =
        "\<lambda>q ps. Inl (ExecutionError ''syntax error at or near LIMIT'') :: error + unit list"]
  by (simp add: search_jobs_def eval_defs)




end
